theory Spec2Isabelle
  imports Complex_Main
begin

section \<open>Shallow embedding of \<open>notebooks/utils.py\<close>\<close>

text \<open>
  Python exceptions that the modelled functions can raise are values of \<open>py_error\<close>;
  a fallible function returns \<open>py_error + 'a\<close> with \<open>Inl\<close> for the raised exception.
\<close>

datatype py_error = ZeroDivisionError | IndexError | ValueError

text \<open>
  Python's \<open>xs[s:e]\<close> for bounds that are not negative: the bounds are clipped to the
  length of the list, and the slice is empty when \<open>e \<le> s\<close>.
\<close>

definition slice :: "'a list \<Rightarrow> nat \<Rightarrow> nat \<Rightarrow> 'a list" where
  "slice xs s e = take (e - s) (drop s xs)"

text \<open>Running a list of fallible computations stops at the first exception.\<close>

fun collect :: "(py_error + 'a) list \<Rightarrow> py_error + 'a list" where
  "collect [] = Inr []"
| "collect (Inl e # _) = Inl e"
| "collect (Inr x # rs) = (case collect rs of Inl e \<Rightarrow> Inl e | Inr xs \<Rightarrow> Inr (x # xs))"

subsection \<open>\<open>overlap\<close>\<close>

text \<open>
  A gene is the tuple \<open>(chromosome, start, end, strand)\<close>, a fragment the tuple
  \<open>(chromosome, start, end)\<close>. The Python function has three \<open>return True\<close>, one
  \<open>return False\<close> and otherwise falls off its end, which returns \<open>None\<close>: the result
  type is \<open>bool option\<close> with \<open>None\<close> for Python's \<open>None\<close>.
\<close>

type_synonym gene = "string \<times> int \<times> int \<times> string"
type_synonym fragment = "string \<times> int \<times> int"

fun overlap :: "gene \<Rightarrow> fragment \<Rightarrow> int \<Rightarrow> int \<Rightarrow> bool option" where
  "overlap (g0, g1, g2, g3) (f0, f1, f2) upstream downstream =
     (let (upstream, downstream) =
            (if g3 = ''rev'' then (downstream, upstream) else (upstream, downstream))
      in if g0 \<noteq> f0 then Some False
         else if g2 + downstream \<ge> f1 \<and> g1 - upstream \<le> f1 then Some True
         else if g2 + downstream \<ge> f2 \<and> g1 - upstream \<le> f2 then Some True
         else if g1 - upstream \<ge> f1 \<and> g2 + downstream \<le> f2 then Some True
         else None)"

text \<open>The call with the default keyword arguments \<open>upstream=10000, downstream=0\<close>.\<close>

definition overlap_default :: "gene \<Rightarrow> fragment \<Rightarrow> bool option" where
  "overlap_default gene fragment = overlap gene fragment 10000 0"

text \<open>
  The padded gene span in the words of the specification: the gene's interval widened by
  the upstream padding on one side and the downstream padding on the other, the two
  paddings exchanged for a gene on the reverse strand.
\<close>

definition padded_span :: "gene \<Rightarrow> int \<Rightarrow> int \<Rightarrow> int \<times> int" where
  "padded_span gene upstream downstream =
     (case gene of (g0, g1, g2, g3) \<Rightarrow>
        if g3 = ''rev'' then (g1 - downstream, g2 + upstream)
        else (g1 - upstream, g2 + downstream))"

definition start_in_span :: "fragment \<Rightarrow> int \<times> int \<Rightarrow> bool" where
  "start_in_span fragment sp = (fst sp \<le> fst (snd fragment) \<and> fst (snd fragment) \<le> snd sp)"

definition end_in_span :: "fragment \<Rightarrow> int \<times> int \<Rightarrow> bool" where
  "end_in_span fragment sp = (fst sp \<le> snd (snd fragment) \<and> snd (snd fragment) \<le> snd sp)"

definition span_in_fragment :: "fragment \<Rightarrow> int \<times> int \<Rightarrow> bool" where
  "span_in_fragment fragment sp = (fst (snd fragment) \<le> fst sp \<and> snd sp \<le> snd (snd fragment))"

definition containment :: "gene \<Rightarrow> fragment \<Rightarrow> int \<Rightarrow> int \<Rightarrow> bool" where
  "containment gene fragment upstream downstream =
     (let sp = padded_span gene upstream downstream
      in start_in_span fragment sp \<or> end_in_span fragment sp \<or> span_in_fragment fragment sp)"


subsection \<open>Annotated matrices and \<open>pca\<close>\<close>

text \<open>
  An annotated matrix holds the observation-by-feature matrix \<open>X\<close> (a list of rows), the
  row and column labels, and the dictionary \<open>obsm\<close> of derived embeddings.
\<close>

record anndata =
  X :: "real list list"
  obs_names :: "string list"
  var_names :: "string list"
  obsm :: "string \<rightharpoonup> real list list"

text \<open>
  One iteration of the transform loop computes \<open>start_idx\<close> and \<open>end_idx\<close>; the test
  \<open>adata.X.shape[0] - end_idx < batch_size\<close> is on Python integers, so it is evaluated
  in \<open>int\<close>.
\<close>

definition batch_bounds :: "nat \<Rightarrow> nat \<Rightarrow> nat \<Rightarrow> nat \<times> nat" where
  "batch_bounds n_rows batch_size batch =
     (let start_idx = batch * batch_size;
          end_idx = start_idx + batch_size;
          end_idx = (if int n_rows - int end_idx < int batch_size then n_rows else end_idx)
      in (start_idx, end_idx))"

text \<open>
  The slice assignment \<open>embeddings[start_idx:end_idx,:] = vals\<close>, where \<open>vals\<close> has as
  many rows as the slice.
\<close>

definition assign_rows :: "'a list \<Rightarrow> nat \<Rightarrow> nat \<Rightarrow> 'a list \<Rightarrow> 'a list" where
  "assign_rows embeddings start_idx end_idx vals =
     take start_idx embeddings @ vals @ drop end_idx embeddings"

definition pca_batch ::
  "(real list \<Rightarrow> real list) \<Rightarrow> real list list \<Rightarrow> nat \<Rightarrow> real list list \<Rightarrow> nat
     \<Rightarrow> real list list" where
  "pca_batch transform rows batch_size embeddings batch =
     (let (start_idx, end_idx) = batch_bounds (length rows) batch_size batch
      in assign_rows embeddings start_idx end_idx
           (map transform (slice rows start_idx end_idx)))"

text \<open>
  The embeddings start as a zero matrix of shape \<open>(rows, n_components)\<close>.
  \<open>int(rows / n_batches)\<close> raises \<open>ZeroDivisionError\<close> for \<open>n_batches = 0\<close>; for a
  positive \<open>n_batches\<close> it is the integer quotient (the float quotient is exact enough
  for every row count below \<open>2^53\<close>). \<open>range(n_batches)\<close> is empty for a negative
  \<open>n_batches\<close>. The fitted transformer acts on each row of a batch.
\<close>

definition pca_embeddings ::
  "(real list \<Rightarrow> real list) \<Rightarrow> real list list \<Rightarrow> nat \<Rightarrow> int \<Rightarrow> py_error + real list list" where
  "pca_embeddings transform rows n_components n_batches =
     (if n_batches = 0 then Inl ZeroDivisionError
      else let n_rows = length rows;
               embeddings = replicate n_rows (replicate n_components 0);
               batch_size = n_rows div nat n_batches
           in Inr (foldl (pca_batch transform rows batch_size) embeddings [0..<nat n_batches]))"

text \<open>
  \<open>pca\<close> itself: \<open>fit\<close> stands for \<open>PCA(n_components).fit\<close>, which maps the training rows
  to the row transformer; the embeddings are stored under \<open>X_pca\<close> and the annotated
  matrix is returned.
\<close>

definition pca ::
  "(real list list \<Rightarrow> real list \<Rightarrow> real list) \<Rightarrow> anndata \<Rightarrow> nat \<Rightarrow> real \<Rightarrow> int
     \<Rightarrow> py_error + anndata" where
  "pca fit adata n_components train_ratio n_batches =
     (let train_size = nat \<lceil>real (length (X adata)) * train_ratio\<rceil>;
          transform = fit (take train_size (X adata))
      in case pca_embeddings transform (X adata) n_components n_batches of
           Inl e \<Rightarrow> Inl e
         | Inr embeddings \<Rightarrow> Inr (adata\<lparr>obsm := (obsm adata)(''X_pca'' \<mapsto> embeddings)\<rparr>))"

text \<open>The row ranges that the loop of \<open>pca\<close> transforms, in order.\<close>

definition pca_batches :: "nat \<Rightarrow> int \<Rightarrow> (nat \<times> nat) list" where
  "pca_batches n_rows n_batches =
     map (batch_bounds n_rows (n_rows div nat n_batches)) [0..<nat n_batches]"

subsection \<open>\<open>tf_idf\<close> and \<open>logtf_idf\<close>\<close>

text \<open>
  The sparse count matrix is seen through its dense rows; arithmetic is over the reals,
  so rounding of the floating-point operations is not part of the model.
  \<open>(filtered_cells > 0).sum(axis=0)\<close> counts, per column, the rows with a positive entry.
\<close>

definition n_cols :: "real list list \<Rightarrow> nat" where
  "n_cols rows = (case rows of [] \<Rightarrow> 0 | r # _ \<Rightarrow> length r)"

definition count_positive :: "real list list \<Rightarrow> nat \<Rightarrow> nat list" where
  "count_positive rows n = map (\<lambda>j. length (filter (\<lambda>row. row ! j > 0) rows)) [0..<n]"

text \<open>Multiplication by a column vector and by a row vector, with broadcasting.\<close>

definition multiply_rows :: "real list list \<Rightarrow> real list \<Rightarrow> real list list" where
  "multiply_rows rows v = map2 (\<lambda>row s. map (\<lambda>x. x * s) row) rows v"

definition multiply_cols :: "real list list \<Rightarrow> real list \<Rightarrow> real list list" where
  "multiply_cols rows w = map (\<lambda>row. map2 (*) row w) rows"

definition log1p :: "real \<Rightarrow> real" where
  "log1p x = ln (1 + x)"

definition tf_idf :: "real list list \<Rightarrow> real list list" where
  "tf_idf filtered_cells =
    (let inv_sums = map (\<lambda>row. 1 / sum_list row) filtered_cells;
         peak_counts = count_positive filtered_cells (n_cols filtered_cells);
         log_inv_peak_freq =
           map (\<lambda>c. log1p (real (length filtered_cells) / real c)) peak_counts;
         normalized = multiply_rows filtered_cells inv_sums;
         normalized = multiply_cols normalized log_inv_peak_freq
     in normalized)"

definition logtf_idf :: "real list list \<Rightarrow> real \<Rightarrow> real list list" where
  "logtf_idf filtered_cells pseudocount =
    (let log_inv_sums = map (\<lambda>row. log1p (pseudocount / sum_list row)) filtered_cells;
         peak_counts = count_positive filtered_cells (n_cols filtered_cells);
         log_inv_peak_freq =
           map (\<lambda>c. log1p (real (length filtered_cells) / real c)) peak_counts;
         normalized = multiply_rows filtered_cells log_inv_sums;
         normalized = multiply_cols normalized log_inv_peak_freq
     in normalized)"

subsection \<open>\<open>filter_peaks\<close>\<close>

text \<open>
  \<open>np.argsort\<close> is library code; it is taken as the specification describes it, an
  ascending sort that keeps equal keys in index order. \<open>xs[-n:]\<close> keeps the last \<open>n\<close>
  elements for a positive \<open>n\<close>; for \<open>n = 0\<close> the bound \<open>-0\<close> is \<open>0\<close> and the slice is
  the whole list; for a negative \<open>n\<close> it drops the first \<open>-n\<close> elements.
\<close>

definition argsort :: "real list \<Rightarrow> nat list" where
  "argsort xs = map snd (sort_key fst (zip xs [0..<length xs]))"

definition last_n :: "'a list \<Rightarrow> int \<Rightarrow> 'a list" where
  "last_n xs n = (if n > 0 then drop (length xs - nat n) xs else drop (nat (- n)) xs)"

definition peak_frequency :: "anndata \<Rightarrow> real list" where
  "peak_frequency adata =
     (let peak_occurrences = count_positive (X adata) (length (var_names adata))
      in map (\<lambda>c. real c / real (length (X adata))) peak_occurrences)"

definition anndata_columns :: "anndata \<Rightarrow> nat list \<Rightarrow> anndata" where
  "anndata_columns adata use =
     adata\<lparr>X := map (\<lambda>row. map (\<lambda>j. row ! j) use) (X adata),
            var_names := map (\<lambda>j. var_names adata ! j) use\<rparr>"

definition filter_peaks :: "anndata \<Rightarrow> int \<Rightarrow> anndata" where
  "filter_peaks adata n_top_peaks =
     (let frequent_peak_idxs = argsort (peak_frequency adata);
          use = last_n frequent_peak_idxs n_top_peaks
      in anndata_columns adata use)"

subsection \<open>Compressed-row matrices and the input file\<close>

text \<open>
  A compressed-row matrix is the three arrays and the shape. The file holds the same three
  arrays for the full matrix under \<open>/X/data\<close>, \<open>/X/indices\<close>, \<open>/X/indptr\<close>, and the
  labels under \<open>/var/_index\<close> and \<open>/obs/_index\<close>. Row pointers are offsets into the
  other two arrays and are modelled as naturals.
\<close>

record csr_matrix =
  data :: "real list"
  indices :: "nat list"
  indptr :: "nat list"
  shape :: "nat \<times> nat"

record h5ad_file =
  X_data :: "real list"
  X_indices :: "nat list"
  X_indptr :: "nat list"
  var_index :: "string list"
  obs_index :: "string list"

definition row_data :: "csr_matrix \<Rightarrow> nat \<Rightarrow> real list" where
  "row_data m i = slice (data m) (indptr m ! i) (indptr m ! Suc i)"

definition row_indices :: "csr_matrix \<Rightarrow> nat \<Rightarrow> nat list" where
  "row_indices m i = slice (indices m) (indptr m ! i) (indptr m ! Suc i)"

text \<open>\<open>cp.diff\<close>: the differences of neighbouring elements.\<close>

definition diff :: "nat list \<Rightarrow> int list" where
  "diff ps = map2 (\<lambda>p q. int q - int p) ps (tl ps)"

text \<open>The row pointers of a matrix whose rows have the given lengths.\<close>

definition offsets :: "nat list \<Rightarrow> nat list" where
  "offsets lens = map (\<lambda>k. sum_list (take k lens)) [0..<Suc (length lens)]"

text \<open>
  Indexing a compressed-row matrix with a boolean mask over its rows (\<open>m[query]\<close>) keeps
  the rows whose mask entry is true, in order.
\<close>

definition csr_select_rows :: "csr_matrix \<Rightarrow> bool list \<Rightarrow> csr_matrix" where
  "csr_select_rows m query =
     (let keep = filter (\<lambda>i. query ! i) [0..<fst (shape m)]
      in \<lparr>data = concat (map (row_data m) keep),
          indices = concat (map (row_indices m) keep),
          indptr = offsets (map (\<lambda>i. indptr m ! Suc i - indptr m ! i) keep),
          shape = (length keep, snd (shape m))\<rparr>)"

subsection \<open>\<open>_read_partition_to_sparse_matrix\<close>\<close>

text \<open>
  The first half of the partition reader, up to the reconstruction of
  \<open>partial_sparse_array\<close>. Reading \<open>indptrs[batch_start]\<close> or \<open>indptrs[batch_end]\<close> out
  of range raises, and so does \<open>sub_indptrs[0]\<close> on an empty slice. The rebasing
  subtraction is exact when the pointers do not decrease, which holds in a well-formed
  file.
\<close>

definition reconstruct_partition ::
  "h5ad_file \<Rightarrow> nat \<Rightarrow> nat \<Rightarrow> nat \<Rightarrow> py_error + csr_matrix" where
  "reconstruct_partition h5f total_cols batch_start batch_end =
     (let indptrs = X_indptr h5f
      in if length indptrs \<le> batch_start \<or> length indptrs \<le> batch_end then Inl IndexError
         else
           let start_ptr = indptrs ! batch_start;
               end_ptr = indptrs ! batch_end;
               sub_data = slice (X_data h5f) start_ptr end_ptr;
               sub_indices = slice (X_indices h5f) start_ptr end_ptr;
               sub_indptrs = slice indptrs batch_start (batch_end + 1)
           in case sub_indptrs of
                [] \<Rightarrow> Inl IndexError
              | p0 # _ \<Rightarrow>
                  Inr \<lparr>data = sub_data, indices = sub_indices,
                       indptr = map (\<lambda>p. p - p0) sub_indptrs,
                       shape = (batch_end - batch_start, total_cols)\<rparr>)"

text \<open>The second half: the degrees, the query and the row selection.\<close>

definition degree_filter :: "csr_matrix \<Rightarrow> int \<Rightarrow> int \<Rightarrow> csr_matrix" where
  "degree_filter partial_sparse_array min_genes_per_cell max_genes_per_cell =
     (let degrees = diff (indptr partial_sparse_array);
          query = map (\<lambda>d. min_genes_per_cell \<le> d \<and> d \<le> max_genes_per_cell) degrees
      in csr_select_rows partial_sparse_array query)"

definition read_partition_to_sparse_matrix ::
  "h5ad_file \<Rightarrow> nat \<Rightarrow> nat \<Rightarrow> nat \<Rightarrow> int \<Rightarrow> int \<Rightarrow> py_error + csr_matrix" where
  "read_partition_to_sparse_matrix h5f total_cols batch_start batch_end
       min_genes_per_cell max_genes_per_cell =
     (case reconstruct_partition h5f total_cols batch_start batch_end of
        Inl e \<Rightarrow> Inl e
      | Inr partial_sparse_array \<Rightarrow>
          Inr (degree_filter partial_sparse_array min_genes_per_cell max_genes_per_cell))"

subsection \<open>\<open>sum_csr_matrix\<close>\<close>

text \<open>
  \<open>x.sum(axis=axis)\<close> of a compressed-row matrix: a single row of column sums for axis 0,
  a column of row sums for axis 1.
\<close>

definition column_sums :: "csr_matrix \<Rightarrow> real list" where
  "column_sums m =
     map (\<lambda>j. sum_list (map snd (filter (\<lambda>e. fst e = j) (zip (indices m) (data m)))))
         [0..<snd (shape m)]"

definition row_sums :: "csr_matrix \<Rightarrow> real list" where
  "row_sums m = map (\<lambda>i. sum_list (row_data m i)) [0..<fst (shape m)]"

definition csr_sum :: "csr_matrix \<Rightarrow> nat \<Rightarrow> py_error + real list list" where
  "csr_sum x axis =
     (if axis = 0 then Inr [column_sums x]
      else if axis = 1 then Inr (map (\<lambda>s. [s]) (row_sums x))
      else Inl ValueError)"

definition dense_shape :: "real list list \<Rightarrow> nat \<times> nat" where
  "dense_shape rows = (length rows, case rows of [] \<Rightarrow> 0 | r # _ \<Rightarrow> length r)"

text \<open>
  \<open>dask.array.concatenate\<close> of dense blocks along an axis; it raises on an empty list and
  on blocks whose other dimension differs.
\<close>

definition concatenate_dense :: "real list list list \<Rightarrow> nat \<Rightarrow> py_error + real list list" where
  "concatenate_dense objs axis =
     (case objs of
        [] \<Rightarrow> Inl ValueError
      | obj # rest \<Rightarrow>
          if axis = 0 then
            (if list_all (\<lambda>ob. snd (dense_shape ob) = snd (dense_shape obj)) rest
             then Inr (concat objs) else Inl ValueError)
          else if axis = 1 then
            (if list_all (\<lambda>ob. fst (dense_shape ob) = fst (dense_shape obj)) rest
             then Inr (map (\<lambda>i. concat (map (\<lambda>ob. ob ! i) objs)) [0..<length obj])
             else Inl ValueError)
          else Inl ValueError)"

text \<open>
  A distributed client knows its scheduler and, for each partition of an array, the worker
  that holds it. The process-wide state is the default client, if any;
  \<open>dask.distributed.default_client()\<close> raises \<open>ValueError\<close> when there is none.
\<close>

record client =
  scheduler :: string
  who_has :: "nat \<Rightarrow> string"

record runtime =
  default_client :: "client option"

definition extract_partitions :: "client \<Rightarrow> 'a list \<Rightarrow> (string \<times> 'a) list" where
  "extract_partitions c parts = map (\<lambda>k. (who_has c k, parts ! k)) [0..<length parts]"

text \<open>
  A partitioned array is the list of its deferred partitions: each is the value its task
  returns, or the exception it raises, when the work is forced.
\<close>

definition submit_sum :: "py_error + csr_matrix \<Rightarrow> nat \<Rightarrow> py_error + real list list" where
  "submit_sum part axis = (case part of Inl e \<Rightarrow> Inl e | Inr x \<Rightarrow> csr_sum x axis)"

text \<open>
  \<open>sum_csr_matrix\<close> rebinds \<open>client\<close> in its first statement; the bound variable of the
  \<open>case\<close> shadows the parameter in the same way. The result is the list of workers the
  tasks were submitted to and the concatenated sums.
\<close>

definition sum_csr_matrix ::
  "runtime \<Rightarrow> (py_error + csr_matrix) list \<Rightarrow> client \<Rightarrow> nat
     \<Rightarrow> py_error + (string list \<times> real list list)" where
  "sum_csr_matrix rt csr_matrix client axis =
     (case default_client rt of
        None \<Rightarrow> Inl ValueError
      | Some client \<Rightarrow>
          let parts = extract_partitions client csr_matrix;
              futures = map (\<lambda>(w, part). (w, submit_sum part axis)) parts
          in case collect (map snd futures) of
               Inl e \<Rightarrow> Inl e
             | Inr objs \<Rightarrow>
                 (case concatenate_dense objs axis of
                    Inl e \<Rightarrow> Inl e
                  | Inr res \<Rightarrow> Inr (map fst futures, res)))"

subsection \<open>\<open>read_with_filter\<close>\<close>

text \<open>The loop \<open>for batch_start in range(0, max_cells, batch_size)\<close> and its row ranges.\<close>

function batch_ranges :: "nat \<Rightarrow> nat \<Rightarrow> nat \<Rightarrow> (nat \<times> nat) list" where
  "batch_ranges batch_start max_cells batch_size =
     (if batch_size = 0 \<or> max_cells \<le> batch_start then []
      else (batch_start, batch_start + min batch_size (max_cells - batch_start))
           # batch_ranges (batch_start + batch_size) max_cells batch_size)"
  by pat_completeness auto
termination
  by (relation "measure (\<lambda>(batch_start, max_cells, batch_size). max_cells - batch_start)") auto

declare batch_ranges.simps [simp del]

definition dense_column_sums :: "real list list \<Rightarrow> nat \<Rightarrow> real list" where
  "dense_column_sums rows n = map (\<lambda>j. sum_list (map (\<lambda>r. r ! j) rows)) [0..<n]"

text \<open>Indexing a list with a boolean mask.\<close>

definition mask_select :: "'a list \<Rightarrow> bool list \<Rightarrow> 'a list" where
  "mask_select xs query = map fst (filter snd (zip xs query))"

text \<open>Materialising the partitioned matrix stacks its blocks.\<close>

definition csr_vstack :: "csr_matrix \<Rightarrow> csr_matrix \<Rightarrow> csr_matrix" where
  "csr_vstack a b =
     \<lparr>data = data a @ data b, indices = indices a @ indices b,
      indptr = indptr a @ map (\<lambda>p. p + length (data a)) (tl (indptr b)),
      shape = (fst (shape a) + fst (shape b), snd (shape a))\<rparr>"

definition csr_concatenate :: "csr_matrix list \<Rightarrow> py_error + csr_matrix" where
  "csr_concatenate ms =
     (case ms of [] \<Rightarrow> Inl ValueError | m # rest \<Rightarrow> Inr (foldl csr_vstack m rest))"

text \<open>Indexing the columns with a boolean mask (\<open>m[:, query]\<close>) renumbers the kept columns.\<close>

definition csr_select_columns :: "csr_matrix \<Rightarrow> bool list \<Rightarrow> csr_matrix" where
  "csr_select_columns m query =
     (let renumber = (\<lambda>c. length (filter id (take c query)));
          rows = map (\<lambda>i. map (\<lambda>(c, v). (renumber c, v))
                              (filter (\<lambda>(c, v). query ! c)
                                      (zip (row_indices m i) (row_data m i))))
                     [0..<fst (shape m)]
      in \<lparr>data = concat (map (map snd) rows), indices = concat (map (map fst) rows),
          indptr = offsets (map length rows),
          shape = (fst (shape m), length (filter id query))\<rparr>)"

text \<open>
  \<open>range\<close> raises \<open>ValueError\<close> for a zero step, and \<open>dask.array.concatenate\<close> for an
  empty list of partitions. The shape declared for each deferred partition is metadata
  and does not enter the result. The per-gene count is the sum over the partial sums that
  \<open>sum_csr_matrix\<close> returns for axis 0.
\<close>

definition read_with_filter ::
  "runtime \<Rightarrow> client \<Rightarrow> h5ad_file \<Rightarrow> int \<Rightarrow> int \<Rightarrow> real \<Rightarrow> nat option \<Rightarrow> nat
     \<Rightarrow> py_error + (csr_matrix \<times> string list)" where
  "read_with_filter rt client sample_file min_genes_per_cell max_genes_per_cell min_cells
       num_cells batch_size =
     (let indptr = X_indptr sample_file;
          genes = var_index sample_file;
          total_cols = length genes;
          max_cells = (case num_cells of None \<Rightarrow> length indptr - 1 | Some n \<Rightarrow> n)
      in if batch_size = 0 then Inl ValueError
         else
           let dls = map (\<lambda>(batch_start, batch_end).
                            read_partition_to_sparse_matrix sample_file total_cols
                              batch_start batch_end min_genes_per_cell max_genes_per_cell)
                         (batch_ranges 0 max_cells batch_size)
           in if dls = [] then Inl ValueError
              else case sum_csr_matrix rt dls client 0 of
                     Inl e \<Rightarrow> Inl e
                   | Inr (workers, part_sums) \<Rightarrow>
                       let gene_wise_cell_cnt = dense_column_sums part_sums total_cols;
                           query = map (\<lambda>c. c \<ge> min_cells) gene_wise_cell_cnt;
                           genes = mask_select genes query
                       in case collect dls of
                            Inl e \<Rightarrow> Inl e
                          | Inr parts \<Rightarrow>
                              (case csr_concatenate parts of
                                 Inl e \<Rightarrow> Inl e
                               | Inr whole \<Rightarrow> Inr (csr_select_columns whole query, genes)))"

subsection \<open>Notions used to state the properties\<close>

text \<open>
  A row of a compressed-row matrix is the list of its stored entries, each a column index
  with its value; the rows of a matrix are listed in order. The rows of the file's full
  matrix are read off the file's arrays in the same way.
\<close>

definition csr_row :: "csr_matrix \<Rightarrow> nat \<Rightarrow> (nat \<times> real) list" where
  "csr_row m i = zip (row_indices m i) (row_data m i)"

definition csr_rows :: "csr_matrix \<Rightarrow> (nat \<times> real) list list" where
  "csr_rows m = map (csr_row m) [0..<fst (shape m)]"

definition file_row :: "h5ad_file \<Rightarrow> nat \<Rightarrow> (nat \<times> real) list" where
  "file_row f i = zip (slice (X_indices f) (X_indptr f ! i) (X_indptr f ! Suc i))
                      (slice (X_data f) (X_indptr f ! i) (X_indptr f ! Suc i))"

definition n_rows :: "h5ad_file \<Rightarrow> nat" where
  "n_rows f = length (X_indptr f) - 1"

text \<open>
  Well-formedness: the row pointers do not decrease and stay inside the data and index
  arrays, which have the same length; a matrix has one pointer more than rows.
\<close>

definition wf_csr :: "csr_matrix \<Rightarrow> bool" where
  "wf_csr m \<longleftrightarrow> length (indptr m) = Suc (fst (shape m)) \<and> sorted (indptr m)
      \<and> last (indptr m) \<le> length (data m) \<and> length (indices m) = length (data m)"

definition wf_file :: "h5ad_file \<Rightarrow> bool" where
  "wf_file f \<longleftrightarrow> X_indptr f \<noteq> [] \<and> sorted (X_indptr f)
      \<and> last (X_indptr f) \<le> length (X_data f) \<and> length (X_indices f) = length (X_data f)"

text \<open>The degree of a row is the number of its stored entries; both bounds are inclusive.\<close>

definition degree_within :: "int \<Rightarrow> int \<Rightarrow> (nat \<times> real) list \<Rightarrow> bool" where
  "degree_within mn mx row \<longleftrightarrow> mn \<le> int (length row) \<and> int (length row) \<le> mx"

text \<open>
  A list of row ranges splits \<open>[a, n)\<close> into contiguous partitions when each range starts
  where the one before ended.
\<close>

fun contiguous :: "nat \<Rightarrow> (nat \<times> nat) list \<Rightarrow> nat \<Rightarrow> bool" where
  "contiguous a [] n = (a = n)"
| "contiguous a ((s, e) # rs) n = (s = a \<and> s \<le> e \<and> contiguous e rs n)"

definition read_partitions ::
  "h5ad_file \<Rightarrow> nat \<Rightarrow> (nat \<times> nat) list \<Rightarrow> int \<Rightarrow> int \<Rightarrow> py_error + csr_matrix list" where
  "read_partitions f total_cols ranges mn mx =
     collect (map (\<lambda>(s, e). read_partition_to_sparse_matrix f total_cols s e mn mx) ranges)"

text \<open>
  A count matrix with \<open>n\<close> columns has rows of length \<open>n\<close> and no negative entry.
  \<open>rows_with_nonzero\<close> counts the rows with a nonzero entry in a column.
\<close>

definition count_matrix :: "real list list \<Rightarrow> nat \<Rightarrow> bool" where
  "count_matrix rows n \<longleftrightarrow> (\<forall>row \<in> set rows. length row = n \<and> (\<forall>x \<in> set row. 0 \<le> x))"

definition rows_with_nonzero :: "real list list \<Rightarrow> nat \<Rightarrow> nat" where
  "rows_with_nonzero rows j = length (filter (\<lambda>row. row ! j \<noteq> 0) rows)"

text \<open>
  The number of rows, among the rows of the file that pass the degree filter, that store a
  nonzero value in column \<open>j\<close>.
\<close>

definition surviving_rows :: "h5ad_file \<Rightarrow> int \<Rightarrow> int \<Rightarrow> (nat \<times> real) list list" where
  "surviving_rows f mn mx = filter (degree_within mn mx) (map (file_row f) [0..<n_rows f])"

definition cells_with_gene :: "(nat \<times> real) list list \<Rightarrow> nat \<Rightarrow> nat" where
  "cells_with_gene rows j = length (filter (list_ex (\<lambda>(c, v). c = j \<and> v \<noteq> 0)) rows)"

subsection \<open>Example inputs\<close>

text \<open>Seven cells with one feature each.\<close>

definition seven_cells :: anndata where
  "seven_cells = \<lparr>X = [[1], [2], [3], [4], [5], [6], [7]],
     obs_names = [''c0'', ''c1'', ''c2'', ''c3'', ''c4'', ''c5'', ''c6''],
     var_names = [''g0''], obsm = Map.empty\<rparr>"

text \<open>Five cells and four peaks whose nonzero-frequencies are 0.2, 0.8, 0.4 and 0.6.\<close>

definition five_by_four :: anndata where
  "five_by_four = \<lparr>X = [[1, 1, 1, 1], [0, 1, 1, 1], [0, 1, 0, 1], [0, 1, 0, 0], [0, 0, 0, 0]],
     obs_names = [''c0'', ''c1'', ''c2'', ''c3'', ''c4''],
     var_names = [''p0'', ''p1'', ''p2'', ''p3''], obsm = Map.empty\<rparr>"

text \<open>
  A file of three cells and three genes: the rows are \<open>{g0: 3}\<close>, \<open>{g1: 1, g2: 2}\<close> and
  \<open>{g1: 5}\<close>.
\<close>

definition three_cells :: h5ad_file where
  "three_cells = \<lparr>X_data = [3, 1, 2, 5], X_indices = [0, 1, 2, 1], X_indptr = [0, 1, 3, 4],
     var_index = [''g0'', ''g1'', ''g2''], obs_index = [''c0'', ''c1'', ''c2'']\<rparr>"

definition one_worker :: client where
  "one_worker = \<lparr>scheduler = ''tcp://scheduler'', who_has = (\<lambda>k. ''tcp://worker0'')\<rparr>"

definition one_worker_runtime :: runtime where
  "one_worker_runtime = \<lparr>default_client = Some one_worker\<rparr>"

section \<open>Theorems\<close>

subsection \<open>\<open>overlap\<close>\<close>

text \<open>
  C2 (counterexample). The third example of the specification does not evaluate to
  \<open>True\<close>: for the reverse-strand gene \<open>(chr1, 100, 200, rev)\<close> with \<open>upstream=50\<close>,
  \<open>downstream=0\<close> the paddings are exchanged, so the span is widened at its end
  (to \<open>[100, 250]\<close>), and the fragment \<open>(chr1, 60, 90)\<close> lies wholly before it. None of
  the three tests fires and the function returns \<open>None\<close>.
\<close>

theorem overlap_examples_counterexample:
  "overlap (''chr1'', 100, 200, ''rev'') (''chr1'', 60, 90) 50 0 \<noteq> Some True"
  by simp

text \<open>
  C2 (amended). The first two examples evaluate as stated: \<open>True\<close> for the fragment
  \<open>(chr1, 150, 160)\<close> with the default padding, \<open>False\<close> for the fragment on \<open>chr2\<close>.
  The third example returns \<open>None\<close>; the same reverse-strand gene with the same padding
  does overlap a fragment just after its end, \<open>(chr1, 210, 240)\<close>.
\<close>

theorem overlap_examples:
  "overlap_default (''chr1'', 100, 200, ''fwd'') (''chr1'', 150, 160) = Some True
   \<and> overlap_default (''chr1'', 100, 200, ''fwd'') (''chr2'', 150, 160) = Some False
   \<and> overlap (''chr1'', 100, 200, ''rev'') (''chr1'', 60, 90) 50 0 = None
   \<and> overlap (''chr1'', 100, 200, ''rev'') (''chr1'', 210, 240) 50 0 = Some True"
  by (simp add: overlap_default_def)

text \<open>
  C6. \<open>overlap\<close> returns \<open>False\<close> when the chromosomes differ; \<open>True\<close> when they are
  equal and the fragment's start lies in the padded span, or its end does, or the padded
  span lies inside the fragment; and \<open>None\<close> (not \<open>False\<close>) when they are equal and none
  of the three holds.
\<close>

theorem overlap_tristate:
  "(fst gene \<noteq> fst fragment \<longrightarrow> overlap gene fragment upstream downstream = Some False)
   \<and> (fst gene = fst fragment \<and> containment gene fragment upstream downstream
        \<longrightarrow> overlap gene fragment upstream downstream = Some True)
   \<and> (fst gene = fst fragment \<and> \<not> containment gene fragment upstream downstream
        \<longrightarrow> overlap gene fragment upstream downstream = None)"
  by (cases gene; cases fragment)
     (auto simp: containment_def padded_span_def start_in_span_def end_in_span_def
                 span_in_fragment_def)

theorem overlap_tristate_witness:
  "overlap (''chr1'', 100, 200, ''fwd'') (''chr2'', 150, 160) 10 0 = Some False
   \<and> overlap (''chr1'', 100, 200, ''fwd'') (''chr1'', 50, 95) 10 0 = Some True
   \<and> overlap (''chr1'', 100, 200, ''fwd'') (''chr1'', 50, 300) 10 0 = Some True
   \<and> overlap (''chr1'', 100, 200, ''fwd'') (''chr1'', 50, 80) 10 0 = None
   \<and> overlap (''chr1'', 100, 200, ''fwd'') (''chr1'', 50, 80) 10 0 \<noteq> Some False"
  using overlap_tristate [of "(''chr1'', 100, 200, ''fwd'')" "(''chr2'', 150, 160)" 10 0]
        overlap_tristate [of "(''chr1'', 100, 200, ''fwd'')" "(''chr1'', 50, 95)" 10 0]
        overlap_tristate [of "(''chr1'', 100, 200, ''fwd'')" "(''chr1'', 50, 300)" 10 0]
        overlap_tristate [of "(''chr1'', 100, 200, ''fwd'')" "(''chr1'', 50, 80)" 10 0]
  by (simp add: containment_def padded_span_def start_in_span_def end_in_span_def
                span_in_fragment_def del: overlap.simps)

subsection \<open>\<open>pca\<close>\<close>

text \<open>
  C1 (the code at a failing input). Seven rows in four batches: the batch size is
  \<open>int(7 / 4) = 1\<close>, the four batches are \<open>[0, 1)\<close>, \<open>[1, 2)\<close>, \<open>[2, 3)\<close>, \<open>[3, 4)\<close>,
  and the last one is not widened because \<open>7 - 4 < 1\<close> is false. The widths sum to 4 and
  rows 4, 5 and 6 of the embeddings keep their zero initialisation.
\<close>

theorem pca_rows_left_zero:
  "pca_embeddings (\<lambda>row. row) (X seven_cells) 1 4 = Inr [[1], [2], [3], [4], [0], [0], [0]]
   \<and> (case pca (\<lambda>train row. row) seven_cells 1 (35 / 100) 4 of
         Inl e \<Rightarrow> None | Inr adata \<Rightarrow> obsm adata ''X_pca'')
       = Some [[1], [2], [3], [4], [0], [0], [0]]
   \<and> pca_batches 7 4 = [(0, 1), (1, 2), (2, 3), (3, 4)]
   \<and> sum_list (map (\<lambda>(start_idx, end_idx). end_idx - start_idx) (pca_batches 7 4)) = 4"
  by code_simp

lemma assign_rows_prefix:
  assumes s: "s \<le> e" and e: "e \<le> length rows"
      and emb: "embeddings = map tr (take s rows) @ replicate (length rows - s) z"
  shows "assign_rows embeddings s e (map tr (slice rows s e))
         = map tr (take e rows) @ replicate (length rows - e) z"
proof -
  have ls: "length (map tr (take s rows)) = s" using s e by simp
  have t: "take s embeddings = map tr (take s rows)"
    unfolding emb using ls by simp
  have "drop e embeddings = drop (e - s) (replicate (length rows - s) z)"
    unfolding emb using ls s by simp
  also have "\<dots> = replicate (length rows - e) z" using s by simp
  finally have d: "drop e embeddings = replicate (length rows - e) z" .
  have "take e rows = take s rows @ take (e - s) (drop s rows)"
    using take_add[of s "e - s" rows] s by simp
  then show ?thesis by (simp add: assign_rows_def t d slice_def)
qed

lemma batch_bounds_inner:
  assumes "Suc (Suc k) * batch_size \<le> n"
  shows "batch_bounds n batch_size k = (k * batch_size, Suc k * batch_size)"
proof -
  define m where "m = k * batch_size"
  have "m + batch_size + batch_size \<le> n" using assms by (simp add: m_def)
  then have "\<not> int n - int (m + batch_size) < int batch_size" by linarith
  then show ?thesis unfolding m_def by (simp add: batch_bounds_def Let_def)
qed

lemma batch_bounds_last:
  assumes "Suc k * batch_size \<le> n"
  shows "batch_bounds n batch_size k
         = (k * batch_size,
            if n - Suc k * batch_size < batch_size then n else Suc k * batch_size)"
proof -
  define m where "m = k * batch_size"
  have "m + batch_size \<le> n" using assms by (simp add: m_def)
  then have "(int n - int (m + batch_size) < int batch_size)
             = (n - (m + batch_size) < batch_size)" by linarith
  then show ?thesis unfolding m_def by (simp add: batch_bounds_def Let_def add.commute)
qed

lemma pca_inner_batches:
  assumes "Suc k * batch_size \<le> length rows"
  shows "foldl (pca_batch tr rows batch_size) (replicate (length rows) z) [0..<k]
         = map tr (take (k * batch_size) rows) @ replicate (length rows - k * batch_size) z"
  using assms
proof (induction k)
  case 0 then show ?case by simp
next
  case (Suc k)
  from Suc.prems have le: "Suc k * batch_size \<le> length rows" by simp
  note ih = Suc.IH[OF le]
  have bb: "batch_bounds (length rows) batch_size k = (k * batch_size, Suc k * batch_size)"
    using Suc.prems by (intro batch_bounds_inner) simp
  have "pca_batch tr rows batch_size
          (map tr (take (k * batch_size) rows) @ replicate (length rows - k * batch_size) z) k
        = map tr (take (Suc k * batch_size) rows)
          @ replicate (length rows - Suc k * batch_size) z"
    unfolding pca_batch_def bb Let_def prod.case
    by (rule assign_rows_prefix[OF _ le]) simp_all
  then show ?case using ih by simp
qed

text \<open>
  What the loop covers in general: with \<open>1 \<le> B \<le> R\<close> every row is transformed exactly when
  \<open>R mod B < R div B\<close>; otherwise the last \<open>R mod B\<close> rows stay zero.
\<close>

lemma pca_embeddings_coverage:
  assumes B: "1 \<le> B" "B \<le> length rows"
  shows "pca_embeddings tr rows n_components (int B)
         = Inr (if length rows mod B < length rows div B then map tr rows
                else map tr (take (B * (length rows div B)) rows)
                     @ replicate (length rows mod B) (replicate n_components 0))"
proof -
  define R where "R = length rows"
  define bs where "bs = R div B"
  obtain k where k: "B = Suc k" using B(1) by (cases B) auto
  have cover: "Suc k * bs \<le> length rows"
    unfolding bs_def k[symmetric] R_def by (simp add: mult.commute)
  have rem: "length rows - Suc k * bs = R mod B"
    unfolding bs_def k[symmetric] R_def by (simp add: minus_mult_div_eq_mod mult.commute)
  let ?z = "replicate n_components (0::real)"
  have inner: "foldl (pca_batch tr rows bs) (replicate (length rows) ?z) [0..<k]
               = map tr (take (k * bs) rows) @ replicate (length rows - k * bs) ?z"
    by (rule pca_inner_batches[OF cover])
  have bb: "batch_bounds (length rows) bs k
            = (k * bs, if R mod B < bs then length rows else Suc k * bs)"
    using batch_bounds_last[OF cover] rem by simp
  have last: "pca_batch tr rows bs
                (map tr (take (k * bs) rows) @ replicate (length rows - k * bs) ?z) k
              = (if R mod B < bs then map tr rows
                 else map tr (take (Suc k * bs) rows) @ replicate (R mod B) ?z)"
  proof (cases "R mod B < bs")
    case True
    have "assign_rows (map tr (take (k * bs) rows) @ replicate (length rows - k * bs) ?z)
            (k * bs) (length rows) (map tr (slice rows (k * bs) (length rows)))
          = map tr (take (length rows) rows) @ replicate (length rows - length rows) ?z"
      using cover by (intro assign_rows_prefix) simp_all
    then show ?thesis using True by (simp add: pca_batch_def bb)
  next
    case False
    have "assign_rows (map tr (take (k * bs) rows) @ replicate (length rows - k * bs) ?z)
            (k * bs) (Suc k * bs) (map tr (slice rows (k * bs) (Suc k * bs)))
          = map tr (take (Suc k * bs) rows) @ replicate (length rows - Suc k * bs) ?z"
      using cover by (intro assign_rows_prefix) simp_all
    then show ?thesis using False rem by (simp add: pca_batch_def bb)
  qed
  have "pca_embeddings tr rows n_components (int B)
        = Inr (foldl (pca_batch tr rows bs) (replicate (length rows) ?z) [0..<B])"
    using B(1) by (simp add: pca_embeddings_def Let_def bs_def R_def)
  also have "[0..<B] = [0..<k] @ [k]" by (simp add: k)
  also have "Inr (foldl (pca_batch tr rows bs) (replicate (length rows) ?z) ([0..<k] @ [k]))
        = Inr (foldl (pca_batch tr rows bs) (replicate (length rows) ?z) [0..<Suc k])"
    by simp
  also have "\<dots> = Inr (pca_batch tr rows bs
                (map tr (take (k * bs) rows) @ replicate (length rows - k * bs) ?z) k)"
    using inner by simp
  finally show ?thesis using last by (simp add: bs_def R_def k mult.commute)
qed

subsection \<open>\<open>filter_peaks\<close>\<close>

text \<open>
  C9 (the code at a failing input). On the five-by-four example the frequencies are
  0.2, 0.8, 0.4, 0.6 and \<open>n_top_peaks = 2\<close> keeps columns 3 and 1. With
  \<open>n_top_peaks = 0\<close> the slice \<open>[-0:]\<close> is the whole index list, and all four columns are
  kept instead of none.
\<close>

theorem filter_peaks_zero_keeps_all:
  "peak_frequency five_by_four = [1 / 5, 4 / 5, 2 / 5, 3 / 5]
   \<and> var_names (filter_peaks five_by_four 2) = [''p3'', ''p1'']
   \<and> var_names (filter_peaks five_by_four 0) = [''p0'', ''p2'', ''p3'', ''p1'']
   \<and> X (filter_peaks five_by_four 0)
       = [[1, 1, 1, 1], [0, 1, 1, 1], [0, 0, 1, 1], [0, 0, 0, 1], [0, 0, 0, 0]]"
  by code_simp

lemma zip_upt_snd_filter:
  "map snd (filter (\<lambda>y. fst y = v) (zip xs [0..<length xs]))
   = filter (\<lambda>i. xs ! i = v) [0..<length xs]"
proof -
  have z: "zip xs [0..<length xs] = map (\<lambda>i. (xs ! i, i)) [0..<length xs]"
    by (rule nth_equalityI) simp_all
  show ?thesis unfolding z by (simp add: filter_map comp_def)
qed

lemma argsort_set: "set (argsort xs) = {..<length xs}"
proof -
  have "set (argsort xs) = set (map snd (sort_key fst (zip xs [0..<length xs])))"
    by (simp only: argsort_def)
  also have "\<dots> = set (map snd (zip xs [0..<length xs]))"
    by (simp only: set_map set_sort)
  also have "map snd (zip xs [0..<length xs]) = [0..<length xs]"
    by (rule map_snd_zip) simp
  finally show ?thesis by (simp add: lessThan_atLeast0)
qed

lemma argsort_length: "length (argsort xs) = length xs"
  by (simp add: argsort_def)

lemma argsort_distinct: "distinct (argsort xs)"
proof -
  have "card (set (argsort xs)) = length (argsort xs)"
    by (simp add: argsort_set argsort_length)
  then show ?thesis by (rule card_distinct)
qed

lemma argsort_keys:
  "map (\<lambda>i. xs ! i) (argsort xs) = map fst (sort_key fst (zip xs [0..<length xs]))"
proof -
  have "\<forall>y \<in> set (sort_key fst (zip xs [0..<length xs])). xs ! snd y = fst y"
    by (auto simp: set_zip)
  then show ?thesis by (simp add: argsort_def)
qed

lemma argsort_sorted: "sorted (map (\<lambda>i. xs ! i) (argsort xs))"
  unfolding argsort_keys by simp

lemma argsort_ties:
  "filter (\<lambda>i. xs ! i = v) (argsort xs) = filter (\<lambda>i. xs ! i = v) [0..<length xs]"
proof -
  let ?ys = "sort_key fst (zip xs [0..<length xs])"
  have key: "\<forall>y \<in> set ?ys. xs ! snd y = fst y" by (auto simp: set_zip)
  have "filter (\<lambda>i. xs ! i = v) (argsort xs) = map snd (filter (\<lambda>y. xs ! snd y = v) ?ys)"
    by (simp add: argsort_def filter_map comp_def)
  also have "filter (\<lambda>y. xs ! snd y = v) ?ys = filter (\<lambda>y. fst y = v) ?ys"
    by (rule filter_cong) (simp_all add: key)
  also have "\<dots> = filter (\<lambda>y. fst y = v) (zip xs [0..<length xs])"
    by (rule sort_key_stable)
  finally show ?thesis by (simp add: zip_upt_snd_filter)
qed

text \<open>
  For a positive \<open>n\<close> up to the number of columns the slice keeps \<open>n\<close> distinct columns,
  and every column left out has a smaller frequency than every kept one, or the same
  frequency and a smaller index.
\<close>

lemma top_peaks:
  assumes n: "0 < n" "n \<le> length xs" and u: "use = last_n (argsort xs) (int n)"
  shows "length use = n \<and> distinct use \<and> set use \<subseteq> {..<length xs}
       \<and> (\<forall>j \<in> set use. \<forall>k < length xs. k \<notin> set use
             \<longrightarrow> xs ! k < xs ! j \<or> (xs ! k = xs ! j \<and> k < j))"
proof (intro conjI ballI allI impI)
  let ?m = "length xs - n"
  have use: "use = drop ?m (argsort xs)"
    using n by (simp add: u last_n_def argsort_length)
  show "length use = n" using n by (simp add: use argsort_length)
  show "distinct use" by (simp add: use argsort_distinct)
  show "set use \<subseteq> {..<length xs}"
    using set_drop_subset[of ?m "argsort xs"] by (simp add: use argsort_set)
  fix j k assume j: "j \<in> set use" and k: "k < length xs" "k \<notin> set use"
  have split: "argsort xs = take ?m (argsort xs) @ use" by (simp add: use)
  have "k \<in> set (argsort xs)" using k(1) by (simp add: argsort_set)
  then have kt: "k \<in> set (take ?m (argsort xs))"
    using k(2) by (subst (asm) split) auto
  have "sorted (map (\<lambda>i. xs ! i) (take ?m (argsort xs)) @ map (\<lambda>i. xs ! i) use)"
    using argsort_sorted[of xs] by (subst (asm) split) simp
  then have le: "xs ! k \<le> xs ! j"
    using kt j by (auto simp: sorted_append)
  have "xs ! k = xs ! j \<Longrightarrow> k < j"
  proof -
    assume eq: "xs ! k = xs ! j"
    let ?P = "\<lambda>i. xs ! i = xs ! j"
    have "sorted_wrt (<) (filter ?P [0..<length xs])" by (simp add: sorted_wrt_filter)
    then have "sorted_wrt (<) (filter ?P (take ?m (argsort xs)) @ filter ?P use)"
      using argsort_ties[of xs "xs ! j"] by (subst (asm) split) (simp add: argsort_ties[symmetric])
    moreover have "k \<in> set (filter ?P (take ?m (argsort xs)))" using kt eq by simp
    moreover have "j \<in> set (filter ?P use)" using j by simp
    ultimately show "k < j" unfolding sorted_wrt_append by blast
  qed
  with le show "xs ! k < xs ! j \<or> (xs ! k = xs ! j \<and> k < j)" by fastforce
qed

subsection \<open>\<open>tf_idf\<close> and \<open>logtf_idf\<close>\<close>

lemma n_cols_count_matrix: "count_matrix rows n \<Longrightarrow> rows \<noteq> [] \<Longrightarrow> n_cols rows = n"
  by (cases rows) (simp_all add: n_cols_def count_matrix_def)

lemma count_positive_nth:
  assumes "count_matrix rows n" "j < n"
  shows "count_positive rows n ! j = rows_with_nonzero rows j"
proof -
  have "filter (\<lambda>row. row ! j > 0) rows = filter (\<lambda>row. row ! j \<noteq> 0) rows"
  proof (rule filter_cong[OF refl])
    fix row assume "row \<in> set rows"
    with assms have "0 \<le> row ! j" by (simp add: count_matrix_def)
    then show "(0 < row ! j) = (row ! j \<noteq> 0)" by auto
  qed
  then show ?thesis using assms(2) by (simp add: count_positive_def rows_with_nonzero_def)
qed

lemma scaled_entry:
  assumes "count_matrix rows n" "i < length rows" "j < n" "length v = length rows"
  shows "multiply_cols (multiply_rows rows v) (map g (count_positive rows n)) ! i ! j
         = rows ! i ! j * v ! i * g (rows_with_nonzero rows j)"
proof -
  have len: "length (rows ! i) = n" using assms(1,2) by (simp add: count_matrix_def)
  have "multiply_rows rows v ! i = map (\<lambda>x. x * v ! i) (rows ! i)"
    using assms(2,4) by (simp add: multiply_rows_def)
  moreover have "length (multiply_rows rows v) = length rows"
    using assms(4) by (simp add: multiply_rows_def)
  moreover have "length (count_positive rows n) = n" by (simp add: count_positive_def)
  ultimately show ?thesis
    using assms(2,3) len count_positive_nth[OF assms(1,3)]
    by (simp add: multiply_cols_def)
qed

text \<open>
  C7. For a count matrix with \<open>N\<close> rows in which every row has a positive sum and every
  column has a nonzero entry, the entry \<open>(i, j)\<close> of \<open>tf_idf\<close> is
  \<open>X[i, j] * (1 / rowSum i) * log (1 + N / rowsWithNonzeroInColumn j)\<close>, and \<open>logtf_idf\<close>
  has \<open>log (1 + pseudocount / rowSum i)\<close> as its row factor instead.
\<close>

theorem tf_idf_entry:
  assumes "count_matrix cells n"
      and "\<forall>row \<in> set cells. 0 < sum_list row"
      and "\<forall>j < n. 0 < rows_with_nonzero cells j"
      and "i < length cells" and "j < n"
  shows "tf_idf cells ! i ! j
           = cells ! i ! j * (1 / sum_list (cells ! i))
             * ln (1 + real (length cells) / real (rows_with_nonzero cells j))
       \<and> logtf_idf cells pseudocount ! i ! j
           = cells ! i ! j * ln (1 + pseudocount / sum_list (cells ! i))
             * ln (1 + real (length cells) / real (rows_with_nonzero cells j))"
proof -
  have ne: "cells \<noteq> []" using assms(4) by auto
  note nc = n_cols_count_matrix[OF assms(1) ne]
  have a: "tf_idf cells ! i ! j = cells ! i ! j * map (\<lambda>row. 1 / sum_list row) cells ! i
            * log1p (real (length cells) / real (rows_with_nonzero cells j))"
    unfolding tf_idf_def Let_def nc
    by (rule scaled_entry[OF assms(1,4,5)]) simp
  have b: "logtf_idf cells pseudocount ! i ! j
            = cells ! i ! j * map (\<lambda>row. log1p (pseudocount / sum_list row)) cells ! i
            * log1p (real (length cells) / real (rows_with_nonzero cells j))"
    unfolding logtf_idf_def Let_def nc
    by (rule scaled_entry[OF assms(1,4,5)]) simp
  show ?thesis using a b assms(4) by (simp add: log1p_def)
qed

theorem tf_idf_entry_witness:
  "count_matrix [[1, 1], [0, 2]] 2
   \<and> tf_idf [[1, 1], [0, 2]] ! 0 ! 1 = 1 * (1 / 2) * ln (1 + 2 / 2)
   \<and> logtf_idf [[1, 1], [0, 2]] 100000 ! 0 ! 1 = 1 * ln (1 + 100000 / 2) * ln (1 + 2 / 2)"
proof -
  have cm: "count_matrix [[1, 1], [0, 2]] 2" by (simp add: count_matrix_def)
  have rs: "\<forall>row \<in> set [[1, 1], [0, 2::real]]. 0 < sum_list row" by simp
  have nz: "\<forall>j < 2. 0 < rows_with_nonzero [[1, 1], [0, 2]] j"
    by (simp add: rows_with_nonzero_def numeral_2_eq_2 less_Suc_eq)
  show ?thesis
    using tf_idf_entry[OF cm rs nz, of 0 1 100000] cm
    by (simp add: rows_with_nonzero_def)
qed

subsection \<open>Slices and compressed rows\<close>

lemma slice_slice:
  "s \<le> x \<Longrightarrow> x \<le> y \<Longrightarrow> y \<le> e \<Longrightarrow> slice (slice xs s e) (x - s) (y - s) = slice xs x y"
  by (simp add: slice_def drop_take min_def)

lemma length_slice: "length (slice xs s e) = min (e - s) (length xs - s)"
  by (simp add: slice_def)

lemma concat_segment:
  "k < length segs \<Longrightarrow>
   slice (concat segs) (sum_list (map length (take k segs)))
         (sum_list (map length (take (Suc k) segs))) = segs ! k"
proof (induction segs arbitrary: k)
  case Nil then show ?case by simp
next
  case (Cons s segs)
  show ?case
  proof (cases k)
    case 0 then show ?thesis by (simp add: slice_def)
  next
    case (Suc j)
    with Cons.prems have "j < length segs" by simp
    from Cons.IH[OF this] show ?thesis using Suc by (simp add: slice_def)
  qed
qed

lemma offsets_nth: "k \<le> length lens \<Longrightarrow> offsets lens ! k = sum_list (take k lens)"
  unfolding offsets_def by (metis add_0 le_imp_less_Suc nth_map_upt diff_zero)


lemma offsets_segment:
  assumes "k < length segs"
  shows "slice (concat segs) (offsets (map length segs) ! k)
               (offsets (map length segs) ! Suc k) = segs ! k"
proof -
  have "offsets (map length segs) ! k = sum_list (map length (take k segs))"
    using assms by (simp add: offsets_nth take_map)
  moreover have "offsets (map length segs) ! Suc k = sum_list (map length (take (Suc k) segs))"
    using assms by (simp add: offsets_nth take_map)
  ultimately show ?thesis using concat_segment[OF assms] by simp
qed

lemma wf_csr_row_bounds:
  assumes "wf_csr m" "i < fst (shape m)"
  shows "indptr m ! i \<le> indptr m ! Suc i" "indptr m ! Suc i \<le> length (data m)"
        "indptr m ! Suc i \<le> length (indices m)"
proof -
  from assms have len: "Suc i < length (indptr m)" and srt: "sorted (indptr m)"
    by (simp_all add: wf_csr_def)
  show "indptr m ! i \<le> indptr m ! Suc i"
    using srt len by (simp add: sorted_nth_mono)
  have "indptr m ! Suc i \<le> indptr m ! (length (indptr m) - 1)"
    using srt len by (intro sorted_nth_mono) simp_all
  also have "\<dots> = last (indptr m)"
    using len by (metis last_conv_nth length_0_conv not_less_zero)
  finally show "indptr m ! Suc i \<le> length (data m)" "indptr m ! Suc i \<le> length (indices m)"
    using assms(1) by (simp_all add: wf_csr_def)
qed

lemma wf_csr_row_lengths:
  assumes "wf_csr m" "i < fst (shape m)"
  shows "length (row_data m i) = indptr m ! Suc i - indptr m ! i"
        "length (row_indices m i) = indptr m ! Suc i - indptr m ! i"
  using wf_csr_row_bounds[OF assms]
  by (simp_all add: row_data_def row_indices_def length_slice)

lemma csr_select_rows_rows:
  assumes wf: "wf_csr m"
  shows "csr_rows (csr_select_rows m query)
         = map (csr_row m) (filter (\<lambda>i. query ! i) [0..<fst (shape m)])"
proof -
  define keep where "keep = filter (\<lambda>i. query ! i) [0..<fst (shape m)]"
  define lens where "lens = map (\<lambda>i. indptr m ! Suc i - indptr m ! i) keep"
  have keep_lt: "i < fst (shape m)" if "i \<in> set keep" for i
    using that by (simp add: keep_def)
  have lens_data: "lens = map length (map (row_data m) keep)"
    unfolding lens_def using keep_lt wf_csr_row_lengths(1)[OF wf] by simp
  have lens_idx: "lens = map length (map (row_indices m) keep)"
    unfolding lens_def using keep_lt wf_csr_row_lengths(2)[OF wf] by simp
  have sel: "csr_select_rows m query =
               \<lparr>data = concat (map (row_data m) keep),
                indices = concat (map (row_indices m) keep),
                indptr = offsets lens, shape = (length keep, snd (shape m))\<rparr>"
    by (simp add: csr_select_rows_def keep_def lens_def Let_def)
  have row: "csr_row (csr_select_rows m query) k = csr_row m (keep ! k)" if "k < length keep" for k
  proof -
    have "row_data (csr_select_rows m query) k
          = slice (concat (map (row_data m) keep)) (offsets lens ! k) (offsets lens ! Suc k)"
      by (simp add: sel row_data_def)
    also have "\<dots> = map (row_data m) keep ! k"
      using offsets_segment[of k "map (row_data m) keep"] that
      by (simp only: lens_data[symmetric] length_map)
    finally have d: "row_data (csr_select_rows m query) k = row_data m (keep ! k)"
      using that by simp
    have "row_indices (csr_select_rows m query) k
          = slice (concat (map (row_indices m) keep)) (offsets lens ! k) (offsets lens ! Suc k)"
      by (simp add: sel row_indices_def)
    also have "\<dots> = map (row_indices m) keep ! k"
      using offsets_segment[of k "map (row_indices m) keep"] that
      by (simp only: lens_idx[symmetric] length_map)
    finally have i: "row_indices (csr_select_rows m query) k = row_indices m (keep ! k)"
      using that by simp
    show ?thesis by (simp add: csr_row_def d i)
  qed
  have "csr_rows (csr_select_rows m query) = map (csr_row (csr_select_rows m query)) [0..<length keep]"
    by (simp add: csr_rows_def sel)
  also have "\<dots> = map (\<lambda>k. csr_row m (keep ! k)) [0..<length keep]"
    by (rule map_cong) (simp_all add: row)
  also have "\<dots> = map (csr_row m) keep"
    by (rule nth_equalityI) simp_all
  finally show ?thesis by (simp add: keep_def)
qed

lemma slice_nonempty:
  assumes "a < length xs" "a < e"
  shows "slice xs a e = xs ! a # slice xs (Suc a) e"
proof -
  have "drop a xs = xs ! a # drop (Suc a) xs"
    using assms(1) by (simp add: Cons_nth_drop_Suc)
  moreover obtain d where "e - a = Suc d" "e - Suc a = d"
    using assms(2) by (cases "e - a") auto
  ultimately show ?thesis by (simp add: slice_def)
qed

lemma slice_nth: "i < e - s \<Longrightarrow> s + i < length xs \<Longrightarrow> slice xs s e ! i = xs ! (s + i)"
  by (simp add: slice_def)

lemma wf_file_bounds:
  assumes "wf_file f" "i \<le> j" "j < length (X_indptr f)"
  shows "X_indptr f ! i \<le> X_indptr f ! j" "X_indptr f ! j \<le> length (X_data f)"
        "X_indptr f ! j \<le> length (X_indices f)"
proof -
  from assms(1) have srt: "sorted (X_indptr f)" by (simp add: wf_file_def)
  show "X_indptr f ! i \<le> X_indptr f ! j"
    using srt assms(2,3) by (simp add: sorted_nth_mono)
  have "X_indptr f ! j \<le> X_indptr f ! (length (X_indptr f) - 1)"
    using srt assms(3) by (intro sorted_nth_mono) simp_all
  also have "\<dots> = last (X_indptr f)"
    using assms(3) by (metis last_conv_nth length_0_conv not_less_zero)
  finally show "X_indptr f ! j \<le> length (X_data f)" "X_indptr f ! j \<le> length (X_indices f)"
    using assms(1) by (simp_all add: wf_file_def)
qed

lemma reconstruct_partition_eq:
  assumes "batch_start \<le> batch_end" "batch_end < length (X_indptr h5f)"
  shows "reconstruct_partition h5f total_cols batch_start batch_end =
           Inr \<lparr>data = slice (X_data h5f) (X_indptr h5f ! batch_start) (X_indptr h5f ! batch_end),
                indices = slice (X_indices h5f) (X_indptr h5f ! batch_start)
                                (X_indptr h5f ! batch_end),
                indptr = map (\<lambda>p. p - X_indptr h5f ! batch_start)
                             (slice (X_indptr h5f) batch_start (batch_end + 1)),
                shape = (batch_end - batch_start, total_cols)\<rparr>"
proof -
  have "slice (X_indptr h5f) batch_start (batch_end + 1)
        = X_indptr h5f ! batch_start # slice (X_indptr h5f) (Suc batch_start) (batch_end + 1)"
    using assms by (intro slice_nonempty) simp_all
  then show ?thesis
    using assms by (simp add: reconstruct_partition_def Let_def)
qed


lemma partial_indptr_nth:
  assumes "reconstruct_partition f tc a b = Inr m" "a \<le> b" "b < length (X_indptr f)" "i \<le> b - a"
  shows "indptr m ! i = X_indptr f ! (a + i) - X_indptr f ! a"
proof -
  have "i < length (slice (X_indptr f) a (b + 1))"
    using assms(2-4) by (simp add: length_slice)
  moreover have "slice (X_indptr f) a (b + 1) ! i = X_indptr f ! (a + i)"
    using assms(2-4) by (intro slice_nth) simp_all
  ultimately show ?thesis
    using assms(1) reconstruct_partition_eq[OF assms(2,3), of tc] by auto
qed

lemma partial_wf:
  assumes wf: "wf_file f" and m: "reconstruct_partition f tc a b = Inr m"
      and ab: "a \<le> b" "b < length (X_indptr f)"
  shows "wf_csr m"
proof -
  note eq = reconstruct_partition_eq[OF ab, of tc]
  have len: "length (indptr m) = Suc (fst (shape m))"
    using m eq ab by (auto simp: length_slice)
  have "sorted (slice (X_indptr f) a (b + 1))"
    using wf by (simp add: slice_def wf_file_def)
  then have "sorted (map (\<lambda>p. p - X_indptr f ! a) (slice (X_indptr f) a (b + 1)))"
    unfolding sorted_map by (rule sorted_wrt_mono_rel[rotated]) (simp add: diff_le_mono)
  then have srt: "sorted (indptr m)"
    using m eq by auto
  have last: "last (indptr m) = X_indptr f ! b - X_indptr f ! a"
  proof -
    have "last (indptr m) = indptr m ! (b - a)"
      using len m eq by (subst last_conv_nth) auto
    then show ?thesis using partial_indptr_nth[OF m ab, of "b - a"] ab by simp
  qed
  have bnd: "X_indptr f ! a \<le> X_indptr f ! b" "X_indptr f ! b \<le> length (X_data f)"
            "X_indptr f ! b \<le> length (X_indices f)"
    using wf_file_bounds[OF wf ab] by simp_all
  have "length (data m) = X_indptr f ! b - X_indptr f ! a"
       "length (indices m) = X_indptr f ! b - X_indptr f ! a"
    using m eq bnd by (auto simp: length_slice)
  with len srt last show ?thesis by (simp add: wf_csr_def)
qed

lemma partial_row:
  assumes wf: "wf_file f" and m: "reconstruct_partition f tc a b = Inr m"
      and ab: "a \<le> b" "b < length (X_indptr f)" and i: "i < b - a"
  shows "csr_row m i = file_row f (a + i)"
proof -
  let ?p = "X_indptr f"
  have p0: "indptr m ! i = ?p ! (a + i) - ?p ! a"
    using partial_indptr_nth[OF m ab, of i] i by simp
  have p1: "indptr m ! Suc i = ?p ! Suc (a + i) - ?p ! a"
    using partial_indptr_nth[OF m ab, of "Suc i"] i by simp
  have le1: "?p ! a \<le> ?p ! (a + i)"
    using wf_file_bounds(1)[OF wf, of a "a + i"] ab i by simp
  have le2: "?p ! (a + i) \<le> ?p ! Suc (a + i)"
    using wf_file_bounds(1)[OF wf, of "a + i" "Suc (a + i)"] ab i by simp
  have le3: "?p ! Suc (a + i) \<le> ?p ! b"
    using wf_file_bounds(1)[OF wf, of "Suc (a + i)" b] ab i by simp
  have d: "data m = slice (X_data f) (?p ! a) (?p ! b)"
   and x: "indices m = slice (X_indices f) (?p ! a) (?p ! b)"
    using m reconstruct_partition_eq[OF ab, of tc] by auto
  show ?thesis
    by (simp add: csr_row_def file_row_def row_data_def row_indices_def p0 p1 d x
                  slice_slice[OF le1 le2 le3])
qed

lemma degree_filter_rows:
  assumes wf: "wf_csr m"
  shows "csr_rows (degree_filter m mn mx) = filter (degree_within mn mx) (csr_rows m)"
proof -
  let ?n = "fst (shape m)"
  let ?query = "map (\<lambda>d. mn \<le> d \<and> d \<le> mx) (diff (indptr m))"
  have len: "length (indptr m) = Suc ?n" using wf by (simp add: wf_csr_def)
  have q: "?query ! i = degree_within mn mx (csr_row m i)" if "i < ?n" for i
  proof -
    have "diff (indptr m) ! i = int (indptr m ! Suc i) - int (indptr m ! i)"
      using len that by (simp add: diff_def nth_tl)
    moreover have "length (csr_row m i) = indptr m ! Suc i - indptr m ! i"
      using wf_csr_row_lengths[OF wf that] by (simp add: csr_row_def)
    moreover have "indptr m ! i \<le> indptr m ! Suc i"
      using wf_csr_row_bounds(1)[OF wf that] .
    moreover have "i < length (diff (indptr m))"
      using len that by (simp add: diff_def)
    ultimately show ?thesis by (simp add: degree_within_def)
  qed
  have "csr_rows (degree_filter m mn mx) = map (csr_row m) (filter (\<lambda>i. ?query ! i) [0..<?n])"
    using csr_select_rows_rows[OF wf] by (simp add: degree_filter_def Let_def)
  also have "filter (\<lambda>i. ?query ! i) [0..<?n]
             = filter (\<lambda>i. degree_within mn mx (csr_row m i)) [0..<?n]"
    by (rule filter_cong) (simp_all add: q)
  also have "map (csr_row m) \<dots> = filter (degree_within mn mx) (map (csr_row m) [0..<?n])"
    by (simp add: filter_map comp_def)
  finally show ?thesis by (simp add: csr_rows_def)
qed

lemma partial_rows:
  assumes wf: "wf_file f" and m: "reconstruct_partition f tc a b = Inr m"
      and ab: "a \<le> b" "b < length (X_indptr f)"
  shows "csr_rows m = map (file_row f) [a..<b]"
proof -
  have sh: "fst (shape m) = b - a"
    using m reconstruct_partition_eq[OF ab, of tc] by auto
  have "map (csr_row m) [0..<b - a] = map (\<lambda>i. file_row f (a + i)) [0..<b - a]"
    by (rule map_cong) (simp_all add: partial_row[OF wf m ab])
  also have "\<dots> = map (file_row f) (map (\<lambda>i. i + a) [0..<b - a])"
    by (simp add: add.commute)
  also have "map (\<lambda>i. i + a) [0..<b - a] = [a..<b]"
    using ab(1) by (simp add: map_add_upt)
  finally show ?thesis by (simp add: csr_rows_def sh)
qed

lemma read_partition_rows:
  assumes wf: "wf_file f" and ab: "a \<le> b" "b < length (X_indptr f)"
  obtains r where "read_partition_to_sparse_matrix f tc a b mn mx = Inr r"
    and "csr_rows r = filter (degree_within mn mx) (map (file_row f) [a..<b])"
proof -
  obtain m where m: "reconstruct_partition f tc a b = Inr m"
    using reconstruct_partition_eq[OF ab, of tc] by blast
  have "read_partition_to_sparse_matrix f tc a b mn mx = Inr (degree_filter m mn mx)"
    by (simp add: read_partition_to_sparse_matrix_def m)
  moreover have "csr_rows (degree_filter m mn mx)
                 = filter (degree_within mn mx) (map (file_row f) [a..<b])"
    using degree_filter_rows[OF partial_wf[OF wf m ab]] partial_rows[OF wf m ab] by simp
  ultimately show ?thesis using that by blast
qed

lemma contiguous_upt:
  "contiguous a rs n \<Longrightarrow> a \<le> n \<and> concat (map (\<lambda>(s, e). [s..<e]) rs) = [a..<n]"
proof (induction rs arbitrary: a)
  case Nil then show ?case by simp
next
  case (Cons r rs)
  obtain s e where r: "r = (s, e)" by (cases r)
  from Cons.prems r have sa: "s = a" and se: "s \<le> e" and c: "contiguous e rs n" by simp_all
  from Cons.IH[OF c] have en: "e \<le> n" and cc: "concat (map (\<lambda>(s, e). [s..<e]) rs) = [e..<n]"
    by simp_all
  have "[a..<n] = [a..<e] @ [e..<n]"
    using sa se en by (metis le_Suc_ex upt_add_eq_append)
  then show ?case using r sa se en cc by simp
qed

lemma contiguous_bounds:
  "contiguous a rs n \<Longrightarrow> (s, e) \<in> set rs \<Longrightarrow> s \<le> e \<and> e \<le> n"
proof (induction rs arbitrary: a)
  case Nil then show ?case by simp
next
  case (Cons r rs)
  obtain s' e' where r: "r = (s', e')" by (cases r)
  from Cons.prems(1) r have se: "s' \<le> e'" and c: "contiguous e' rs n" by simp_all
  from contiguous_upt[OF c] have "e' \<le> n" by simp
  with Cons r se c show ?case by auto
qed

lemma read_partitions_rows:
  assumes wf: "wf_file f"
      and rs: "\<forall>(s, e) \<in> set ranges. s \<le> e \<and> e < length (X_indptr f)"
  shows "\<exists>parts. read_partitions f tc ranges mn mx = Inr parts
           \<and> map csr_rows parts
               = map (\<lambda>(s, e). filter (degree_within mn mx) (map (file_row f) [s..<e])) ranges"
  using rs
proof (induction ranges)
  case Nil then show ?case by (simp add: read_partitions_def)
next
  case (Cons r ranges)
  obtain s e where r: "r = (s, e)" by (cases r)
  from Cons.prems r have se: "s \<le> e" "e < length (X_indptr f)" by simp_all
  from Cons.prems have "\<forall>(s, e) \<in> set ranges. s \<le> e \<and> e < length (X_indptr f)" by simp
  from Cons.IH[OF this] obtain parts where
    p: "read_partitions f tc ranges mn mx = Inr parts"
       "map csr_rows parts
        = map (\<lambda>(s, e). filter (degree_within mn mx) (map (file_row f) [s..<e])) ranges"
    by blast
  obtain p0 where p0: "read_partition_to_sparse_matrix f tc s e mn mx = Inr p0"
      "csr_rows p0 = filter (degree_within mn mx) (map (file_row f) [s..<e])"
    using read_partition_rows[OF wf se] by blast
  have "read_partitions f tc (r # ranges) mn mx = Inr (p0 # parts)"
    using p(1) p0(1) r by (simp add: read_partitions_def)
  then show ?case using p(2) p0(2) r by simp
qed

lemma concat_filter_ranges:
  "concat (map (\<lambda>(s, e). filter P (map g [s..<e])) ranges)
   = filter P (map g (concat (map (\<lambda>(s, e). [s..<e]) ranges)))"
  by (induction ranges) auto

lemma batch_ranges_contiguous:
  "0 < batch_size \<Longrightarrow> batch_start \<le> max_cells \<Longrightarrow>
   contiguous batch_start (batch_ranges batch_start max_cells batch_size) max_cells"
proof (induction batch_start max_cells batch_size rule: batch_ranges.induct)
  case (1 batch_start max_cells batch_size)
  show ?case
  proof (cases "max_cells \<le> batch_start")
    case True
    with 1 show ?thesis by (subst batch_ranges.simps) simp
  next
    case False
    show ?thesis
    proof (cases "batch_size \<le> max_cells - batch_start")
      case True
      with 1 False show ?thesis
        by (subst batch_ranges.simps) (simp add: min_def)
    next
      case F2: False
      then have "max_cells \<le> batch_start + batch_size" by simp
      then have "batch_ranges (batch_start + batch_size) max_cells batch_size = []"
        by (simp add: batch_ranges.simps[of "batch_start + batch_size"])
      with 1 False F2 show ?thesis
        by (subst batch_ranges.simps) (simp add: min_def)
    qed
  qed
qed

subsection \<open>The partition reader\<close>

text \<open>
  C5. For a well-formed file and a row range \<open>[batch_start, batch_end)\<close> inside it, the
  reader reconstructs a matrix of shape \<open>(batch_end - batch_start, total_cols)\<close> whose row
  pointers have length \<open>(batch_end - batch_start) + 1\<close>, start at 0 and are the file's
  pointers of the range less the first one; whose data and indices are the file's arrays
  sliced by the first and the last pointer; whose rows are the file's rows of the range;
  and it returns exactly the rows whose degree \<open>d\<close> satisfies
  \<open>min_genes_per_cell \<le> d \<le> max_genes_per_cell\<close>, in order.
\<close>

theorem partition_reader_structure:
  assumes wf: "wf_file f" and ab: "batch_start \<le> batch_end" "batch_end \<le> n_rows f"
  shows "\<exists>m r. reconstruct_partition f total_cols batch_start batch_end = Inr m
           \<and> read_partition_to_sparse_matrix f total_cols batch_start batch_end mn mx = Inr r
           \<and> shape m = (batch_end - batch_start, total_cols)
           \<and> length (indptr m) = (batch_end - batch_start) + 1
           \<and> indptr m ! 0 = 0
           \<and> indptr m = map (\<lambda>p. p - X_indptr f ! batch_start)
                             (slice (X_indptr f) batch_start (batch_end + 1))
           \<and> data m = slice (X_data f) (X_indptr f ! batch_start) (X_indptr f ! batch_end)
           \<and> indices m = slice (X_indices f) (X_indptr f ! batch_start) (X_indptr f ! batch_end)
           \<and> csr_rows m = map (file_row f) [batch_start..<batch_end]
           \<and> csr_rows r = filter (degree_within mn mx) (csr_rows m)
           \<and> snd (shape r) = total_cols"
proof -
  have "X_indptr f \<noteq> []" using wf by (simp add: wf_file_def)
  with ab(2) have lt: "batch_end < length (X_indptr f)"
    by (cases "X_indptr f") (simp_all add: n_rows_def)
  note eq = reconstruct_partition_eq[OF ab(1) lt, of total_cols]
  then obtain m where m: "reconstruct_partition f total_cols batch_start batch_end = Inr m"
    by blast
  let ?r = "degree_filter m mn mx"
  have r: "read_partition_to_sparse_matrix f total_cols batch_start batch_end mn mx = Inr ?r"
    by (simp add: read_partition_to_sparse_matrix_def m)
  have wfm: "wf_csr m" by (rule partial_wf[OF wf m ab(1) lt])
  have sh: "shape m = (batch_end - batch_start, total_cols)" using m eq by auto
  have len: "length (indptr m) = (batch_end - batch_start) + 1"
    using wfm sh by (simp add: wf_csr_def)
  have z: "indptr m ! 0 = 0"
    using partial_indptr_nth[OF m ab(1) lt, of 0] by simp
  have ip: "indptr m = map (\<lambda>p. p - X_indptr f ! batch_start)
                           (slice (X_indptr f) batch_start (batch_end + 1))"
    using m eq by auto
  have d: "data m = slice (X_data f) (X_indptr f ! batch_start) (X_indptr f ! batch_end)"
    using m eq by auto
  have x: "indices m = slice (X_indices f) (X_indptr f ! batch_start) (X_indptr f ! batch_end)"
    using m eq by auto
  have rows: "csr_rows m = map (file_row f) [batch_start..<batch_end]"
    by (rule partial_rows[OF wf m ab(1) lt])
  have kept: "csr_rows ?r = filter (degree_within mn mx) (csr_rows m)"
    by (rule degree_filter_rows[OF wfm])
  have cols: "snd (shape ?r) = total_cols"
    using sh by (simp add: degree_filter_def csr_select_rows_def Let_def)
  show ?thesis using m r sh len z ip d x rows kept cols by blast
qed

theorem partition_reader_structure_witness:
  "wf_file three_cells \<and> (1::nat) \<le> 3 \<and> 3 \<le> n_rows three_cells
   \<and> (\<exists>m r. reconstruct_partition three_cells 3 1 3 = Inr m
          \<and> read_partition_to_sparse_matrix three_cells 3 1 3 2 6000 = Inr r
          \<and> shape m = (2, 3) \<and> indptr m = [0, 2, 3]
          \<and> csr_rows r = [[(1, 1), (2, 2)]])"
proof -
  have wf: "wf_file three_cells" by (simp add: wf_file_def three_cells_def)
  have ab: "(1::nat) \<le> 3" "3 \<le> n_rows three_cells" by (simp_all add: n_rows_def three_cells_def)
  have m: "reconstruct_partition three_cells 3 1 3
           = Inr \<lparr>data = [1, 2, 5], indices = [1, 2, 1], indptr = [0, 2, 3], shape = (2, 3)\<rparr>"
    by code_simp
  have r: "read_partition_to_sparse_matrix three_cells 3 1 3 2 6000
           = Inr \<lparr>data = [1, 2], indices = [1, 2], indptr = [0, 2], shape = (1, 3)\<rparr>"
    by code_simp
  have rows: "csr_rows \<lparr>data = [1, 2], indices = [1, 2], indptr = [0, 2], shape = (1, 3)\<rparr>
              = [[(1, 1), (2, 2)]]"
    by code_simp
  from partition_reader_structure[OF wf ab, of 3 2 6000] m r rows
  show ?thesis using wf ab by auto
qed

text \<open>
  C4. For a well-formed file and every split of its rows into contiguous partitions, all
  partitions are read without error, and the rows of the filtered partitions, concatenated
  in order, are the rows that the same degree filter keeps when the whole matrix is read
  as a single partition; the row counts agree.
\<close>

theorem partitioned_filter_equals_whole:
  assumes "wf_file f" and "contiguous 0 ranges (n_rows f)"
  shows "\<exists>parts whole.
           read_partitions f total_cols ranges mn mx = Inr parts
         \<and> read_partition_to_sparse_matrix f total_cols 0 (n_rows f) mn mx = Inr whole
         \<and> concat (map csr_rows parts) = csr_rows whole
         \<and> sum_list (map (\<lambda>p. fst (shape p)) parts) = fst (shape whole)"
proof -
  have ne: "X_indptr f \<noteq> []" using assms(1) by (simp add: wf_file_def)
  then have n: "n_rows f < length (X_indptr f)" by (simp add: n_rows_def)
  have "\<forall>(s, e) \<in> set ranges. s \<le> e \<and> e < length (X_indptr f)"
    using contiguous_bounds[OF assms(2)] n by fastforce
  from read_partitions_rows[OF assms(1) this, of total_cols mn mx] obtain parts where
    p: "read_partitions f total_cols ranges mn mx = Inr parts"
       "map csr_rows parts
        = map (\<lambda>(s, e). filter (degree_within mn mx) (map (file_row f) [s..<e])) ranges"
    by blast
  obtain whole where
    w: "read_partition_to_sparse_matrix f total_cols 0 (n_rows f) mn mx = Inr whole"
       "csr_rows whole = filter (degree_within mn mx) (map (file_row f) [0..<n_rows f])"
    using read_partition_rows[OF assms(1) _ n, of 0] by blast
  have rows: "concat (map csr_rows parts) = csr_rows whole"
    using p(2) w(2) contiguous_upt[OF assms(2)] by (simp add: concat_filter_ranges)
  have "sum_list (map (\<lambda>p. fst (shape p)) parts) = length (concat (map csr_rows parts))"
    by (simp add: length_concat csr_rows_def comp_def)
  also have "\<dots> = fst (shape whole)"
    by (simp add: rows) (simp add: csr_rows_def)
  finally show ?thesis using p(1) w(1) rows by blast
qed

text \<open>
  The witness takes the partitions that the loop of \<open>read_with_filter\<close> makes for batches
  of two rows.
\<close>

theorem partitioned_filter_equals_whole_witness:
  "wf_file three_cells
   \<and> batch_ranges 0 (n_rows three_cells) 2 = [(0, 2), (2, 3)]
   \<and> contiguous 0 (batch_ranges 0 (n_rows three_cells) 2) (n_rows three_cells)
   \<and> (\<exists>parts whole.
          read_partitions three_cells 3 (batch_ranges 0 (n_rows three_cells) 2) 1 1 = Inr parts
        \<and> read_partition_to_sparse_matrix three_cells 3 0 3 1 1 = Inr whole
        \<and> concat (map csr_rows parts) = csr_rows whole
        \<and> csr_rows whole = [[(0, 3)], [(1, 5)]])"
proof -
  have wf: "wf_file three_cells" by (simp add: wf_file_def three_cells_def)
  have n: "n_rows three_cells = 3" by (simp add: n_rows_def three_cells_def)
  have b: "batch_ranges 0 (n_rows three_cells) 2 = [(0, 2), (2, 3)]" by code_simp
  have c: "contiguous 0 (batch_ranges 0 (n_rows three_cells) 2) (n_rows three_cells)"
    by (rule batch_ranges_contiguous) simp_all
  have w: "read_partition_to_sparse_matrix three_cells 3 0 3 1 1
           = Inr \<lparr>data = [3, 5], indices = [0, 1], indptr = [0, 1, 2], shape = (2, 3)\<rparr>"
    by code_simp
  have rows: "csr_rows \<lparr>data = [3, 5], indices = [0, 1], indptr = [0, 1, 2], shape = (2, 3)\<rparr>
              = [[(0, 3)], [(1, 5)]]"
    by code_simp
  from partitioned_filter_equals_whole[OF wf c, of 3 1 1] w rows
  show ?thesis using wf b c by (auto simp: n)
qed

subsection \<open>\<open>sum_csr_matrix\<close> and \<open>read_with_filter\<close>\<close>

text \<open>
  C10. \<open>sum_csr_matrix\<close> does not use its \<open>client\<close> parameter: for the same process
  state, partitioned matrix and axis, any two client arguments give the same result,
  because the name is rebound to the default client before any work is scheduled.
\<close>

theorem sum_csr_matrix_ignores_client:
  "sum_csr_matrix rt csr_matrix client1 axis = sum_csr_matrix rt csr_matrix client2 axis"
  by (simp add: sum_csr_matrix_def)

text \<open>
  C3 (the code at a failing input). The file of three cells is read with
  \<open>min_genes_per_cell = 1\<close>, \<open>max_genes_per_cell = 1\<close>, \<open>min_cells = 2\<close> in batches of two
  rows. Rows 0 and 2 pass the degree filter. Genes \<open>g0\<close> and \<open>g1\<close> each have a nonzero
  entry in one surviving row only, which is fewer than \<open>min_cells\<close>, yet both are kept:
  the mask compares the sums of the values, 3 and 5, with \<open>min_cells\<close>.
\<close>

theorem read_with_filter_keeps_by_value_sum:
  "read_with_filter one_worker_runtime one_worker three_cells 1 1 2 None 2
     = Inr (\<lparr>data = [3, 5], indices = [0, 1], indptr = [0, 1, 2], shape = (2, 2)\<rparr>,
            [''g0'', ''g1''])
   \<and> surviving_rows three_cells 1 1 = [[(0, 3)], [(1, 5)]]
   \<and> map (cells_with_gene (surviving_rows three_cells 1 1)) [0, 1, 2] = [1, 1, 0]"
  by code_simp

end
